theory Spec2Isabelle
  imports Complex_Main "HOL-Library.Signed_Division"
begin

section \<open>Go run-time behaviour used by apm.go\<close>

text \<open>
  The Go types \<open>int\<close> and \<open>int64\<close> are modelled by \<^typ>\<open>int\<close>. Every integer the
  program computes is a slice index, a counter bounded by the buffer capacity, or a clock
  reading in milliseconds or nanoseconds since the Unix epoch, or a difference of two such
  readings; none of them leaves the 64-bit range before the year 2262, so wrap-around is
  not written out. Integer division and remainder are Go's: they truncate towards zero
  (\<open>sdiv\<close>, \<open>smod\<close>).

  A run-time panic is a value of type \<open>panic\<close>; a function that can panic returns
  \<open>panic + 'a\<close>, with \<open>Inl\<close> for the panic.
\<close>

datatype panic =
    IndexOutOfRange int int
  | MakeSliceLenOutOfRange
  | IntegerDivideByZero

text \<open>\<open>make([]T, n)\<close>: a zeroed slice of length \<open>n\<close>; panics when \<open>n\<close> is negative.\<close>

definition make_slice :: "int \<Rightarrow> panic + int list" where
  "make_slice n = (if n < 0 then Inl MakeSliceLenOutOfRange else Inr (replicate (nat n) 0))"

text \<open>\<open>xs[i]\<close> read and \<open>xs[i] = v\<close> write, with the bounds check of the run time.\<close>

definition slice_get :: "int list \<Rightarrow> int \<Rightarrow> panic + int" where
  "slice_get xs i =
     (if 0 \<le> i \<and> i < int (length xs) then Inr (xs ! nat i)
      else Inl (IndexOutOfRange i (int (length xs))))"

definition slice_set :: "int list \<Rightarrow> int \<Rightarrow> int \<Rightarrow> panic + int list" where
  "slice_set xs i v =
     (if 0 \<le> i \<and> i < int (length xs) then Inr (xs[nat i := v])
      else Inl (IndexOutOfRange i (int (length xs))))"

text \<open>\<open>a % b\<close> on integers: panics on a zero divisor, otherwise the truncated remainder.\<close>

definition go_rem :: "int \<Rightarrow> int \<Rightarrow> panic + int" where
  "go_rem a b = (if b = 0 then Inl IntegerDivideByZero else Inr (a smod b))"

section \<open>RingBuffer\<close>

text \<open>
  The struct \<open>RingBuffer\<close>. The field \<open>size\<close> is named \<open>size_rb\<close> here, since \<open>size\<close> is a
  constant of HOL. The mutex is not modelled: \<open>Append\<close> and \<open>GetAll\<close> hold it from entry
  to return, so each is one atomic step on the buffer.
\<close>

record RingBuffer =
  data :: "int list"
  size_rb :: int
  capacity :: int
  head :: int

definition NewRingBuffer :: "int \<Rightarrow> panic + RingBuffer" where
  "NewRingBuffer cap =
     (case make_slice cap of
        Inl e \<Rightarrow> Inl e
      | Inr d \<Rightarrow> Inr \<lparr>data = d, size_rb = 0, capacity = cap, head = 0\<rparr>)"

definition Append :: "RingBuffer \<Rightarrow> int \<Rightarrow> panic + RingBuffer" where
  "Append rb v =
     (if size_rb rb < capacity rb then
        (case slice_set (data rb) (size_rb rb) v of
           Inl e \<Rightarrow> Inl e
         | Inr d \<Rightarrow> Inr (rb\<lparr>data := d, size_rb := size_rb rb + 1\<rparr>))
      else
        (case slice_set (data rb) (head rb) v of
           Inl e \<Rightarrow> Inl e
         | Inr d \<Rightarrow>
             (case go_rem (head rb + 1) (capacity rb) of
                Inl e \<Rightarrow> Inl e
              | Inr h \<Rightarrow> Inr (rb\<lparr>data := d, head := h\<rparr>))))"

text \<open>The loop of \<open>GetAll\<close>: \<open>for i := 0; i < rb.size; i++\<close>, filling \<open>result\<close>.\<close>

function GetAll_loop :: "RingBuffer \<Rightarrow> int \<Rightarrow> int list \<Rightarrow> panic + int list" where
  "GetAll_loop rb i result =
     (if i < size_rb rb then
        (case go_rem (head rb + i) (capacity rb) of
           Inl e \<Rightarrow> Inl e
         | Inr j \<Rightarrow>
             (case slice_get (data rb) j of
                Inl e \<Rightarrow> Inl e
              | Inr v \<Rightarrow>
                  (case slice_set result i v of
                     Inl e \<Rightarrow> Inl e
                   | Inr r \<Rightarrow> GetAll_loop rb (i + 1) r)))
      else Inr result)"
  by pat_completeness auto
termination
  by (relation "measure (\<lambda>(rb, i, result). nat (size_rb rb - i))") auto

declare GetAll_loop.simps [simp del]

definition GetAll :: "RingBuffer \<Rightarrow> panic + int list" where
  "GetAll rb =
     (case make_slice (size_rb rb) of
        Inl e \<Rightarrow> Inl e
      | Inr result \<Rightarrow> GetAll_loop rb 0 result)"

text \<open>A sequence of \<open>Append\<close> calls, in order; it stops at the first panic.\<close>

fun appends :: "RingBuffer \<Rightarrow> int list \<Rightarrow> panic + RingBuffer" where
  "appends rb [] = Inr rb"
| "appends rb (v # vs) =
     (case Append rb v of Inl e \<Rightarrow> Inl e | Inr rb' \<Rightarrow> appends rb' vs)"

text \<open>
  Well-formedness of a buffer: the backing slice has \<open>capacity\<close> slots, \<open>size\<close> and
  \<open>head\<close> are within it, and \<open>head\<close> stays 0 until the buffer is full.
\<close>

definition wellformed :: "RingBuffer \<Rightarrow> bool" where
  "wellformed rb =
     (0 < capacity rb \<and> int (length (data rb)) = capacity rb \<and>
      0 \<le> size_rb rb \<and> size_rb rb \<le> capacity rb \<and>
      0 \<le> head rb \<and> head rb < capacity rb \<and>
      (size_rb rb < capacity rb \<longrightarrow> head rb = 0))"

text \<open>The logical contents of a buffer, oldest first: what \<open>GetAll\<close> reads.\<close>

definition logical :: "RingBuffer \<Rightarrow> int list" where
  "logical rb =
     map (\<lambda>i. data rb ! nat ((head rb + int i) mod capacity rb)) [0..<nat (size_rb rb)]"

text \<open>
  A fresh buffer of the given capacity followed by a sequence of \<open>Append\<close> calls, and the
  snapshot \<open>GetAll\<close> returns after them.
\<close>

definition fresh_appends :: "int \<Rightarrow> int list \<Rightarrow> panic + RingBuffer" where
  "fresh_appends cap vs =
     (case NewRingBuffer cap of Inl e \<Rightarrow> Inl e | Inr rb \<Rightarrow> appends rb vs)"

definition snapshot_after :: "int \<Rightarrow> int list \<Rightarrow> panic + int list" where
  "snapshot_after cap vs =
     (case fresh_appends cap vs of Inl e \<Rightarrow> Inl e | Inr rb \<Rightarrow> GetAll rb)"

section \<open>APMTracker\<close>

text \<open>
  Of the struct \<open>APMTracker\<close> the model keeps the fields the computations read and write:
  the buffer, the start time, the peak and the \<open>running\<close> flag. The windows, labels and
  image of the user interface are left out; what a refresh puts on the screen is returned
  as a value (\<open>shown\<close> below).

  The clock is an input: wherever the source calls \<open>time.Now()\<close> the model takes the
  reading as a parameter, in nanoseconds since the Unix epoch (\<open>UnixNano\<close>).
\<close>

record APMTracker =
  actions :: RingBuffer
  startTime :: int
  peakAPM :: int
  running :: bool

definition NewAPMTracker :: "int \<Rightarrow> panic + APMTracker" where
  "NewAPMTracker now =
     (case NewRingBuffer 3600 of
        Inl e \<Rightarrow> Inl e
      | Inr rb \<Rightarrow> Inr \<lparr>actions = rb, startTime = now, peakAPM = 0, running = True\<rparr>)"

text \<open>\<open>t.UnixNano() / int64(time.Millisecond)\<close>, for a clock reading \<open>t\<close>.\<close>

definition unix_millis :: "int \<Rightarrow> int" where
  "unix_millis t = t sdiv 1000000"

definition onAction :: "APMTracker \<Rightarrow> int \<Rightarrow> panic + APMTracker" where
  "onAction a now =
     (case Append (actions a) (unix_millis now) of
        Inl e \<Rightarrow> Inl e
      | Inr rb \<Rightarrow> Inr (a\<lparr>actions := rb\<rparr>))"

text \<open>
  The loop of \<open>calculateCurrentAPM\<close>: \<open>for i := len(actions) - 1; i >= 0; i--\<close>, leaving
  at the first entry older than \<open>minuteAgo\<close>.
\<close>

function count_loop :: "int list \<Rightarrow> int \<Rightarrow> int \<Rightarrow> int \<Rightarrow> panic + int" where
  "count_loop acts minuteAgo i count =
     (if 0 \<le> i then
        (case slice_get acts i of
           Inl e \<Rightarrow> Inl e
         | Inr t \<Rightarrow>
             if t < minuteAgo then Inr count
             else count_loop acts minuteAgo (i - 1) (count + 1))
      else Inr count)"
  by pat_completeness auto
termination
  by (relation "measure (\<lambda>(acts, minuteAgo, i, count). nat (i + 1))") auto

declare count_loop.simps [simp del]

text \<open>\<open>time.Now().Add(-time.Minute)\<close> is the reading less 60 000 000 000 ns.\<close>

definition calculateCurrentAPM :: "APMTracker \<Rightarrow> int \<Rightarrow> panic + int" where
  "calculateCurrentAPM a now =
     (let minuteAgo = unix_millis (now - 60000000000) in
      case GetAll (actions a) of
        Inl e \<Rightarrow> Inl e
      | Inr acts \<Rightarrow> count_loop acts minuteAgo (int (length acts) - 1) 0)"

text \<open>
  A \<open>float64\<close> is a finite value, an infinity or NaN. Finite values are exact rationals:
  rounding to 53 bits and the sign of zero are not modelled. The division below is the
  IEEE 754 division of two finite operands, the only one \<open>calculateAverageAPM\<close> performs:
  a zero divisor gives NaN for a zero dividend and an infinity otherwise, and does not
  panic.
\<close>

datatype float64 = Finite rat | PosInf | NegInf | NaN

definition float64_div :: "rat \<Rightarrow> rat \<Rightarrow> float64" where
  "float64_div x y =
     (if y = 0 then (if x = 0 then NaN else if 0 < x then PosInf else NegInf)
      else Finite (x / y))"

text \<open>
  \<open>Duration.Minutes\<close> of the standard library, for a duration \<open>d\<close> in nanoseconds:
  \<open>min := d / Minute; nsec := d % Minute; return float64(min) + float64(nsec)/(60*1e9)\<close>.
\<close>

definition Minutes :: "int \<Rightarrow> rat" where
  "Minutes d =
     of_int (d sdiv 60000000000) + of_int (d smod 60000000000) / 60000000000"

text \<open>\<open>time.Since(a.startTime)\<close> is the reading less the start time.\<close>

definition calculateAverageAPM :: "APMTracker \<Rightarrow> int \<Rightarrow> panic + float64" where
  "calculateAverageAPM a now =
     (let elapsedMinutes = Minutes (now - startTime a) in
      case GetAll (actions a) of
        Inl e \<Rightarrow> Inl e
      | Inr acts \<Rightarrow> Inr (float64_div (of_nat (length acts)) elapsedMinutes))"

text \<open>\<open>buckets[i]++\<close>, with the bounds check.\<close>

definition slice_incr :: "int list \<Rightarrow> int \<Rightarrow> panic + int list" where
  "slice_incr xs i =
     (case slice_get xs i of Inl e \<Rightarrow> Inl e | Inr c \<Rightarrow> slice_set xs i (c + 1))"

text \<open>The loop \<open>for _, t := range data\<close> of \<open>updateGraph\<close>, filling the 60 buckets.\<close>

fun bucket_loop :: "int \<Rightarrow> int list \<Rightarrow> int list \<Rightarrow> panic + int list" where
  "bucket_loop now [] buckets = Inr buckets"
| "bucket_loop now (t # ts) buckets =
     (if now - t \<le> 60000 then
        (case slice_incr buckets ((now - t) sdiv 1000) of
           Inl e \<Rightarrow> Inl e
         | Inr b \<Rightarrow> bucket_loop now ts b)
      else bucket_loop now ts buckets)"

text \<open>
  \<open>updateGraph\<close> up to the bucket counts. The drawing that follows them is left out:
  it reads the buckets only, and \<open>img.Set\<close> ignores a point outside the image.
\<close>

definition updateGraph :: "APMTracker \<Rightarrow> int \<Rightarrow> panic + int list" where
  "updateGraph a now =
     (let nowMillis = unix_millis now in
      case GetAll (actions a) of
        Inl e \<Rightarrow> Inl e
      | Inr d \<Rightarrow>
          (case make_slice 60 of
             Inl e \<Rightarrow> Inl e
           | Inr buckets \<Rightarrow> bucket_loop nowMillis d buckets))"

text \<open>
  What one refresh displays: the numbers formatted into the three labels, and the bucket
  counts drawn as the graph.
\<close>

record shown =
  shownCurrent :: int
  shownPeak :: int
  shownAverage :: float64
  shownBuckets :: "int list"

text \<open>
  \<open>updateGUI\<close>, with the three clock readings it takes (in \<open>calculateCurrentAPM\<close>, in
  \<open>calculateAverageAPM\<close> and in \<open>updateGraph\<close>). The peak is
  \<open>int(math.Max(float64(a.peakAPM), float64(currentAPM)))\<close>; both operands are counts of
  buffer entries, far below \<open>2^53\<close>, so the conversions are exact and the result is the
  integer maximum. A panic in \<open>updateGraph\<close> ends the program. Scheduling the next
  refresh (\<open>time.AfterFunc\<close>) is the caller's part: see \<open>run\<close>.
\<close>

definition updateGUI :: "APMTracker \<Rightarrow> int \<Rightarrow> int \<Rightarrow> int \<Rightarrow> panic + APMTracker \<times> shown option" where
  "updateGUI a now1 now2 now3 =
     (if \<not> running a then Inr (a, None)
      else
        (case calculateCurrentAPM a now1 of
           Inl e \<Rightarrow> Inl e
         | Inr currentAPM \<Rightarrow>
             (case calculateAverageAPM a now2 of
                Inl e \<Rightarrow> Inl e
              | Inr avgAPM \<Rightarrow>
                  (let a' = a\<lparr>peakAPM := max (peakAPM a) currentAPM\<rparr> in
                   case updateGraph a' now3 of
                     Inl e \<Rightarrow> Inl e
                   | Inr buckets \<Rightarrow>
                       Inr (a', Some \<lparr>shownCurrent = currentAPM, shownPeak = peakAPM a',
                                      shownAverage = avgAPM, shownBuckets = buckets\<rparr>)))))"

text \<open>\<open>onClosing\<close>: the flag is cleared; \<open>a.app.Quit()\<close> belongs to the user interface.\<close>

definition onClosing :: "APMTracker \<Rightarrow> APMTracker" where
  "onClosing a = a\<lparr>running := False\<rparr>"

text \<open>
  A session is a sequence of events on the tracker: an input event (\<open>onAction\<close>) with its
  clock reading, a refresh (\<open>updateGUI\<close>) with its three readings, or the closing of the
  window. \<open>run\<close> returns the final tracker and the current rates the refreshes
  computed, in order; it stops at the first panic.
\<close>

datatype event = Action int | Refresh int int int | Closing

fun step :: "APMTracker \<Rightarrow> event \<Rightarrow> panic + APMTracker \<times> shown option" where
  "step a (Action now) =
     (case onAction a now of Inl e \<Rightarrow> Inl e | Inr a' \<Rightarrow> Inr (a', None))"
| "step a (Refresh now1 now2 now3) = updateGUI a now1 now2 now3"
| "step a Closing = Inr (onClosing a, None)"

fun observed :: "shown option \<Rightarrow> int list" where
  "observed None = []"
| "observed (Some s) = [shownCurrent s]"

fun run :: "APMTracker \<Rightarrow> event list \<Rightarrow> panic + APMTracker \<times> int list" where
  "run a [] = Inr (a, [])"
| "run a (e # es) =
     (case step a e of
        Inl p \<Rightarrow> Inl p
      | Inr (a', out) \<Rightarrow>
          (case run a' es of
             Inl p \<Rightarrow> Inl p
           | Inr (a'', obs) \<Rightarrow> Inr (a'', observed out @ obs)))"

text \<open>A whole session: the tracker is created at \<open>start\<close>, then the events happen.\<close>

definition session :: "int \<Rightarrow> event list \<Rightarrow> panic + APMTracker \<times> int list" where
  "session start evs =
     (case NewAPMTracker start of Inl e \<Rightarrow> Inl e | Inr a \<Rightarrow> run a evs)"

section \<open>The buffer: reading, appending, sequences of appends\<close>

lemma go_rem_nonneg: "0 \<le> a \<Longrightarrow> 0 < b \<Longrightarrow> go_rem a b = Inr (a mod b)"
  by (simp add: go_rem_def smod_mod_positive)

lemma length_logical: "length (logical rb) = nat (size_rb rb)"
  by (simp add: logical_def)

lemma nth_logical:
  "n < nat (size_rb rb) \<Longrightarrow>
   logical rb ! n = data rb ! nat ((head rb + int n) mod capacity rb)"
  by (simp add: logical_def)

text \<open>
  Loop invariant of \<open>GetAll\<close>: after \<open>i\<close> rounds the first \<open>i\<close> slots of \<open>result\<close> are
  final, and the rounds to come fill in the rest of the logical contents.
\<close>

lemma GetAll_loop_logical:
  "wellformed rb \<Longrightarrow> 0 \<le> i \<Longrightarrow> i \<le> size_rb rb \<Longrightarrow> length result = nat (size_rb rb) \<Longrightarrow>
   GetAll_loop rb i result = Inr (take (nat i) result @ drop (nat i) (logical rb))"
proof (induction rb i result rule: GetAll_loop.induct)
  case (1 rb i result)
  show ?case
  proof (cases "i < size_rb rb")
    case False
    with "1.prems" have "i = size_rb rb" by simp
    with "1.prems" show ?thesis
      by (subst GetAll_loop.simps) (simp add: length_logical)
  next
    case True
    define j where "j = (head rb + i) mod capacity rb"
    define v where "v = data rb ! nat j"
    define r where "r = result[nat i := v]"
    from "1.prems" have cap: "0 < capacity rb" and hd0: "0 \<le> head rb"
      and len: "int (length (data rb)) = capacity rb"
      by (simp_all add: wellformed_def)
    have rem: "go_rem (head rb + i) (capacity rb) = Inr j"
      using cap hd0 "1.prems"(2) by (simp add: go_rem_nonneg j_def)
    have jr: "0 \<le> j" "j < capacity rb"
      using cap by (simp_all add: j_def)
    have get: "slice_get (data rb) j = Inr v"
      using jr len by (simp add: slice_get_def v_def)
    have set: "slice_set result i v = Inr r"
      using True "1.prems" by (simp add: slice_set_def r_def)
    have unfold: "GetAll_loop rb i result = GetAll_loop rb (i + 1) r"
      using True rem get set by (subst GetAll_loop.simps) simp
    have IH: "GetAll_loop rb (i + 1) r =
        Inr (take (nat (i + 1)) r @ drop (nat (i + 1)) (logical rb))"
      using "1.IH" [OF True rem get set] "1.prems" True by (simp add: r_def)
    have ni: "nat (i + 1) = Suc (nat i)" using "1.prems" by simp
    have lt: "nat i < nat (size_rb rb)" using True "1.prems" by simp
    have vi: "logical rb ! nat i = v"
      using lt "1.prems" by (simp add: nth_logical v_def j_def)
    have "take (Suc (nat i)) r = take (nat i) result @ [v]"
      using lt "1.prems" by (simp add: r_def take_Suc_conv_app_nth)
    moreover have "drop (nat i) (logical rb) = v # drop (Suc (nat i)) (logical rb)"
      using lt vi by (metis Cons_nth_drop_Suc length_logical)
    ultimately show ?thesis
      using unfold IH ni by simp
  qed
qed

lemma GetAll_logical: "wellformed rb \<Longrightarrow> GetAll rb = Inr (logical rb)"
  using GetAll_loop_logical [of rb 0 "replicate (nat (size_rb rb)) 0"]
  by (simp add: GetAll_def make_slice_def wellformed_def)

text \<open>\<open>Append\<close> below capacity: the value goes to the end.\<close>

lemma Append_filling:
  assumes "wellformed rb" and "size_rb rb < capacity rb"
  shows "\<exists>rb'. Append rb v = Inr rb' \<and> wellformed rb' \<and> capacity rb' = capacity rb \<and>
           logical rb' = logical rb @ [v]"
proof -
  define rb' where
    "rb' = rb\<lparr>data := (data rb)[nat (size_rb rb) := v], size_rb := size_rb rb + 1\<rparr>"
  from assms have h0: "head rb = 0" and s0: "0 \<le> size_rb rb"
    and len: "int (length (data rb)) = capacity rb"
    by (simp_all add: wellformed_def)
  have app: "Append rb v = Inr rb'"
    using assms(2) s0 len by (simp add: Append_def slice_set_def rb'_def)
  have wf': "wellformed rb'"
    using assms by (auto simp add: wellformed_def rb'_def)
  have "logical rb' = logical rb @ [v]"
  proof (rule nth_equalityI)
    show "length (logical rb') = length (logical rb @ [v])"
      using s0 by (simp add: length_logical rb'_def)
  next
    fix n assume "n < length (logical rb')"
    then have n: "n < Suc (nat (size_rb rb))"
      using s0 by (simp add: length_logical rb'_def)
    then have m: "(int n) mod capacity rb = int n"
      using assms(2) s0 by simp
    have "logical rb' ! n = (data rb)[nat (size_rb rb) := v] ! n"
      using n s0 m h0 by (simp add: nth_logical rb'_def)
    also have "\<dots> = (logical rb @ [v]) ! n"
    proof (cases "n = nat (size_rb rb)")
      case True
      then show ?thesis
        using assms(2) s0 len by (simp add: nth_append length_logical)
    next
      case False
      with n have "n < nat (size_rb rb)" by simp
      then show ?thesis
        using False m h0 by (simp add: nth_append length_logical nth_logical)
    qed
    finally show "logical rb' ! n = (logical rb @ [v]) ! n" .
  qed
  with app wf' show ?thesis
    by (auto simp add: rb'_def)
qed

text \<open>\<open>Append\<close> at capacity: the oldest value leaves, the new one goes to the end.\<close>

lemma Append_full:
  assumes "wellformed rb" and "size_rb rb = capacity rb"
  shows "\<exists>rb'. Append rb v = Inr rb' \<and> wellformed rb' \<and> capacity rb' = capacity rb \<and>
           logical rb' = tl (logical rb) @ [v]"
proof -
  define c where "c = capacity rb"
  define h where "h = head rb"
  define rb' where "rb' = rb\<lparr>data := (data rb)[nat h := v], head := (h + 1) mod c\<rparr>"
  from assms have c0: "0 < c" and hr: "0 \<le> h" "h < c"
    and len: "int (length (data rb)) = c" and sz: "size_rb rb = c"
    by (simp_all add: wellformed_def c_def h_def)
  have app: "Append rb v = Inr rb'"
    using c0 hr len sz
    by (simp add: Append_def slice_set_def go_rem_nonneg rb'_def
        c_def [symmetric] h_def [symmetric])
  have wf': "wellformed rb'"
    using c0 hr len sz by (simp add: wellformed_def rb'_def c_def [symmetric])
  have "logical rb' = tl (logical rb) @ [v]"
  proof (rule nth_equalityI)
    show "length (logical rb') = length (tl (logical rb) @ [v])"
      using c0 sz by (simp add: length_logical rb'_def)
  next
    fix n assume "n < length (logical rb')"
    then have n: "int n < c"
      using sz by (simp add: length_logical rb'_def)
    define k where "k = (h + 1 + int n) mod c"
    have k: "0 \<le> k" "k < c" using c0 by (simp_all add: k_def)
    have "((h + 1) mod c + int n) mod c = k"
      by (simp add: k_def mod_add_left_eq)
    then have L: "logical rb' ! n = (data rb)[nat h := v] ! nat k"
      using n sz c0 by (simp add: nth_logical rb'_def c_def [symmetric])
    show "logical rb' ! n = (tl (logical rb) @ [v]) ! n"
    proof (cases "int n + 1 = c")
      case True
      then have "h + 1 + int n = h + c" by simp
      then have "k = (h + c) mod c" by (simp only: k_def)
      then have "k = h"
        using hr by simp
      then have "logical rb' ! n = v"
        using L hr len by simp
      moreover have "(tl (logical rb) @ [v]) ! n = v"
        using True sz by (simp add: nth_append length_logical) linarith
      ultimately show ?thesis by simp
    next
      case False
      with n have n1: "int n + 1 < c" by simp
      have "k \<noteq> h"
      proof (cases "h + 1 + int n < c")
        case True
        then have "k = h + 1 + int n"
          using hr by (simp add: k_def)
        then show ?thesis by simp
      next
        case False
        then have "0 \<le> h + 1 + int n - c" and "h + 1 + int n - c < c"
          using hr n1 by simp_all
        then have "(h + 1 + int n - c) mod c = h + 1 + int n - c"
          by (rule mod_pos_pos_trivial)
        then have "k = h + 1 + int n - c"
          by (simp add: k_def)
        then show ?thesis using n1 by simp
      qed
      then have "logical rb' ! n = data rb ! nat k"
        using L k hr by (simp add: nat_eq_iff)
      moreover have "(tl (logical rb) @ [v]) ! n = data rb ! nat k"
      proof -
        have sn: "Suc n < nat (size_rb rb)" using n1 sz by simp
        then have "n < length (tl (logical rb))" by (simp add: length_logical)
        then have "(tl (logical rb) @ [v]) ! n = logical rb ! Suc n"
          by (simp add: nth_append nth_tl)
        also have "\<dots> = data rb ! nat ((h + int (Suc n)) mod c)"
          using sn by (simp only: nth_logical h_def c_def)
        also have "h + int (Suc n) = h + 1 + int n" by simp
        finally show ?thesis by (simp only: k_def)
      qed
      ultimately show ?thesis by simp
    qed
  qed
  with app wf' show ?thesis
    by (auto simp add: rb'_def c_def)
qed

lemma length_logical_le: "wellformed rb \<Longrightarrow> length (logical rb) \<le> nat (capacity rb)"
  by (simp add: length_logical wellformed_def nat_mono)

text \<open>Both cases of \<open>Append\<close> at once: append, then keep the newest \<open>capacity\<close> values.\<close>

lemma Append_logical:
  assumes "wellformed rb"
  shows "\<exists>rb'. Append rb v = Inr rb' \<and> wellformed rb' \<and> capacity rb' = capacity rb \<and>
           logical rb' = drop (Suc (length (logical rb)) - nat (capacity rb)) (logical rb @ [v])"
proof (cases "size_rb rb < capacity rb")
  case True
  then have "Suc (length (logical rb)) - nat (capacity rb) = 0"
    using assms by (simp add: length_logical wellformed_def) linarith
  with Append_filling [OF assms True, of v] show ?thesis by simp
next
  case False
  with assms have full: "size_rb rb = capacity rb" and c0: "0 < capacity rb"
    by (simp_all add: wellformed_def)
  then have "Suc (length (logical rb)) - nat (capacity rb) = 1"
    by (simp add: length_logical)
  moreover have "logical rb \<noteq> []"
    using full c0 by (metis length_logical length_0_conv nat_0_iff not_less)
  ultimately have "drop (Suc (length (logical rb)) - nat (capacity rb)) (logical rb @ [v])
      = tl (logical rb) @ [v]"
    by (cases "logical rb") simp_all
  with Append_full [OF assms full, of v] show ?thesis by simp
qed

lemma appends_logical:
  "wellformed rb \<Longrightarrow>
   \<exists>rb'. appends rb vs = Inr rb' \<and> wellformed rb' \<and> capacity rb' = capacity rb \<and>
     logical rb' = drop (length (logical rb) + length vs - nat (capacity rb)) (logical rb @ vs)"
proof (induction vs arbitrary: rb)
  case Nil
  with length_logical_le [of rb] show ?case by simp
next
  case (Cons v vs)
  from Append_logical [OF Cons.prems, of v] obtain rb1 where
    a: "Append rb v = Inr rb1" and w: "wellformed rb1" and c: "capacity rb1 = capacity rb"
    and l: "logical rb1 = drop (Suc (length (logical rb)) - nat (capacity rb)) (logical rb @ [v])"
    by blast
  from Cons.IH [OF w] obtain rb' where
    b: "appends rb1 vs = Inr rb'" and w': "wellformed rb'" and c': "capacity rb' = capacity rb1"
    and l': "logical rb' = drop (length (logical rb1) + length vs - nat (capacity rb1)) (logical rb1 @ vs)"
    by blast
  have le: "length (logical rb) \<le> nat (capacity rb)"
    using Cons.prems by (rule length_logical_le)
  define k where "k = Suc (length (logical rb)) - nat (capacity rb)"
  have "0 < nat (capacity rb)"
    using Cons.prems by (simp add: wellformed_def)
  then have k: "k \<le> length (logical rb)" by (simp add: k_def)
  define X where "X = logical rb @ v # vs"
  define m where "m = Suc (length (logical rb)) - k + length vs - nat (capacity rb)"
  have e1: "logical rb1 @ vs = drop k X"
    using k by (simp add: l k_def [symmetric] X_def)
  have e2: "length (logical rb1) = Suc (length (logical rb)) - k"
    by (simp add: l k_def)
  have "logical rb' = drop m (drop k X)"
    by (simp only: l' c e1 e2 m_def)
  then have "logical rb' = drop (m + k) X"
    by simp
  moreover have "m + k = length (logical rb) + length (v # vs) - nat (capacity rb)"
    using le by (auto simp add: k_def m_def)
  ultimately show ?case
    using a b w' c c' by (simp add: X_def)
qed

lemma fresh_appends_logical:
  assumes "0 < cap"
  shows "\<exists>rb. fresh_appends cap vs = Inr rb \<and> wellformed rb \<and> capacity rb = cap \<and>
           logical rb = drop (length vs - nat cap) vs"
proof -
  define rb0 where "rb0 = \<lparr>data = replicate (nat cap) 0, size_rb = 0, capacity = cap, head = 0\<rparr>"
  have new: "NewRingBuffer cap = Inr rb0"
    using assms by (simp add: NewRingBuffer_def make_slice_def rb0_def)
  have w: "wellformed rb0"
    using assms by (simp add: wellformed_def rb0_def)
  have e: "logical rb0 = []"
    by (simp add: logical_def rb0_def)
  from appends_logical [OF w, of vs] new e show ?thesis
    by (simp add: fresh_appends_def rb0_def)
qed

lemma snapshot_after_eq:
  "0 < cap \<Longrightarrow> snapshot_after cap vs = Inr (drop (length vs - nat cap) vs)"
  using fresh_appends_logical [of cap vs] GetAll_logical
  by (auto simp add: snapshot_after_def)

lemma appends_snoc:
  "appends rb (vs @ [v]) = (case appends rb vs of Inl e \<Rightarrow> Inl e | Inr rb' \<Rightarrow> Append rb' v)"
  by (induction vs arbitrary: rb) (auto split: sum.splits)

lemma fresh_appends_snoc:
  "fresh_appends cap (vs @ [v]) =
     (case fresh_appends cap vs of Inl e \<Rightarrow> Inl e | Inr rb \<Rightarrow> Append rb v)"
  by (simp add: fresh_appends_def appends_snoc split: sum.splits)

lemma fresh_appends_sorted:
  assumes "0 < cap" and "sorted vs"
  shows "\<exists>rb ys. fresh_appends cap vs = Inr rb \<and> GetAll rb = Inr ys \<and> sorted ys \<and>
           size_rb rb = min (int (length vs)) cap \<and>
           ys = drop (length vs - nat (size_rb rb)) vs"
proof -
  from fresh_appends_logical [OF assms(1), of vs] obtain rb where
    f: "fresh_appends cap vs = Inr rb" and w: "wellformed rb" and c: "capacity rb = cap"
    and l: "logical rb = drop (length vs - nat cap) vs"
    by blast
  have "nat (size_rb rb) = length (drop (length vs - nat cap) vs)"
    using l by (simp add: length_logical [symmetric])
  moreover have "0 \<le> size_rb rb"
    using w by (simp add: wellformed_def)
  ultimately have sz: "size_rb rb = min (int (length vs)) cap"
    using assms(1) by auto
  then have "length vs - nat (size_rb rb) = length vs - nat cap"
    using assms(1) by auto
  with l have "logical rb = drop (length vs - nat (size_rb rb)) vs"
    by simp
  moreover have "sorted (logical rb)"
    using assms(2) l by (simp add: sorted_wrt_drop)
  ultimately show ?thesis
    using f sz GetAll_logical [OF w] by simp
qed

section \<open>Claims about the buffer\<close>

text \<open>
  C4. For every capacity above 0 and every sequence of \<open>n\<close> calls of \<open>Append\<close> on a fresh
  buffer, \<open>GetAll\<close> returns a sequence of length \<open>min n capacity\<close>.
\<close>

theorem snapshot_length:
  "0 < cap \<Longrightarrow> \<exists>ys. snapshot_after cap vs = Inr ys \<and> length ys = min (length vs) (nat cap)"
  by (simp add: snapshot_after_eq)

theorem snapshot_length_witness:
  "(0::int) < 3 \<and> (\<exists>ys. snapshot_after 3 [10, 20, 30, 40] = Inr ys \<and>
      length ys = min (length [10, 20, 30, 40 :: int]) (nat 3))"
  using snapshot_length [of 3 "[10, 20, 30, 40]"] by simp

text \<open>
  C5. When more values are appended to a fresh buffer than its capacity, \<open>GetAll\<close> returns
  exactly the last \<open>capacity\<close> of them, in the order they were appended, and none of the
  older ones. The appended sequence is written as the evicted values followed by the
  \<open>capacity\<close> kept ones; the statement also holds when nothing is evicted. The witness is
  the scenario with capacity 5 and the appends 0, 1000, ..., 5000.
\<close>

theorem snapshot_keeps_newest:
  "0 < cap \<Longrightarrow> length kept = nat cap \<Longrightarrow> snapshot_after cap (evicted @ kept) = Inr kept"
  by (simp add: snapshot_after_eq)

theorem snapshot_keeps_newest_witness:
  "(0::int) < 5 \<and> length [1000, 2000, 3000, 4000, 5000 :: int] = nat 5 \<and>
   snapshot_after 5 [0, 1000, 2000, 3000, 4000, 5000] = Inr [1000, 2000, 3000, 4000, 5000]"
  using snapshot_keeps_newest [of 5 "[1000, 2000, 3000, 4000, 5000]" "[0]"] by simp

text \<open>
  C6 as stated fails: \<open>NewRingBuffer\<close> has no configuration check and no
  \<open>InvalidConfiguration\<close> error. With capacity 0 it returns a buffer, whose storage is
  empty.
\<close>

theorem NewRingBuffer_zero_counterexample:
  "NewRingBuffer 0 = Inr \<lparr>data = [], size_rb = 0, capacity = 0, head = 0\<rparr>"
  by (simp add: NewRingBuffer_def make_slice_def)

text \<open>
  C6, amended. \<open>NewRingBuffer\<close> succeeds for every capacity from 0 upwards, giving a
  buffer of that capacity with zeroed storage of that length, size 0, head 0 and an empty
  snapshot; above 0 the buffer is well-formed, and at 0 the first \<open>Append\<close> panics on
  the empty storage. A negative capacity panics in \<open>make\<close>, and no buffer is produced.
\<close>

theorem NewRingBuffer_outcomes:
  "(cap < 0 \<longrightarrow> NewRingBuffer cap = Inl MakeSliceLenOutOfRange) \<and>
   (0 \<le> cap \<longrightarrow>
      (\<exists>rb. NewRingBuffer cap = Inr rb \<and> capacity rb = cap \<and> int (length (data rb)) = cap \<and>
         size_rb rb = 0 \<and> head rb = 0 \<and> GetAll rb = Inr [])) \<and>
   (0 < cap \<longrightarrow> (\<exists>rb. NewRingBuffer cap = Inr rb \<and> wellformed rb)) \<and>
   (cap = 0 \<longrightarrow> (\<exists>rb. NewRingBuffer cap = Inr rb \<and> Append rb v = Inl (IndexOutOfRange 0 0)))"
  by (simp add: NewRingBuffer_def make_slice_def wellformed_def GetAll_def GetAll_loop.simps
      Append_def slice_set_def)

theorem NewRingBuffer_outcomes_witness:
  "(0::int) \<le> 3600 \<and> (0::int) < 3600 \<and>
   (\<exists>rb. NewRingBuffer 3600 = Inr rb \<and> capacity rb = 3600 \<and> int (length (data rb)) = 3600 \<and>
         size_rb rb = 0 \<and> head rb = 0 \<and> GetAll rb = Inr [] \<and> wellformed rb)"
  using NewRingBuffer_outcomes [of 3600] by auto

text \<open>
  C9. When the appended values are non-decreasing, \<open>GetAll\<close> returns a non-decreasing
  sequence: the most recent \<open>size\<close> appended values, oldest first, where \<open>size\<close> is
  the number of appends until it reaches the capacity. One more \<open>Append\<close> of a value not
  below the earlier ones keeps all of this.
\<close>

theorem snapshot_sorted:
  assumes "0 < cap" and "sorted vs"
  shows "\<exists>rb ys. fresh_appends cap vs = Inr rb \<and> GetAll rb = Inr ys \<and> sorted ys \<and>
           size_rb rb = min (int (length vs)) cap \<and>
           ys = drop (length vs - nat (size_rb rb)) vs \<and>
           (\<forall>v. (\<forall>x \<in> set vs. x \<le> v) \<longrightarrow>
              (\<exists>rb' ys'. Append rb v = Inr rb' \<and> GetAll rb' = Inr ys' \<and> sorted ys' \<and>
                 size_rb rb' = min (int (length vs) + 1) cap \<and>
                 ys' = drop (length vs + 1 - nat (size_rb rb')) (vs @ [v])))"
proof -
  from fresh_appends_sorted [OF assms] obtain rb ys where
    f: "fresh_appends cap vs = Inr rb" and rest: "GetAll rb = Inr ys" "sorted ys"
      "size_rb rb = min (int (length vs)) cap" "ys = drop (length vs - nat (size_rb rb)) vs"
    by blast
  have "\<exists>rb' ys'. Append rb v = Inr rb' \<and> GetAll rb' = Inr ys' \<and> sorted ys' \<and>
          size_rb rb' = min (int (length vs) + 1) cap \<and>
          ys' = drop (length vs + 1 - nat (size_rb rb')) (vs @ [v])"
    if "\<forall>x \<in> set vs. x \<le> v" for v
  proof -
    from that assms(2) have "sorted (vs @ [v])"
      by (simp add: sorted_append)
    from fresh_appends_sorted [OF assms(1) this] f show ?thesis
      by (simp add: fresh_appends_snoc add.commute)
  qed
  with f rest show ?thesis by blast
qed

theorem snapshot_sorted_witness:
  "(0::int) < 2 \<and> sorted [10, 20, 20 :: int] \<and>
   (\<exists>rb. fresh_appends 2 [10, 20, 20] = Inr rb \<and> GetAll rb = Inr [20, 20] \<and>
      sorted [20, 20 :: int] \<and> size_rb rb = 2)"
proof -
  have h: "(0::int) < 2" "sorted [10, 20, 20 :: int]" by simp_all
  from snapshot_sorted [OF h] obtain rb ys where
    f: "fresh_appends 2 [10, 20, 20] = Inr rb" and g: "GetAll rb = Inr ys"
    and s: "size_rb rb = min (int (length [10, 20, 20 :: int])) 2"
    and y: "ys = drop (length [10, 20, 20 :: int] - nat (size_rb rb)) [10, 20, 20]"
    by blast
  from s have s2: "size_rb rb = 2" by simp
  from y s2 have "ys = [20, 20]" by simp
  with h f g s2 show ?thesis by simp
qed

text \<open>
  C10. On a buffer created with a capacity above 0, every sequence of \<open>Append\<close> calls
  keeps the buffer well-formed: \<open>0 \<le> size \<le> capacity\<close>, \<open>0 \<le> head < capacity\<close>,
  \<open>head = 0\<close> while \<open>size < capacity\<close>, and \<open>capacity\<close> slots of storage. So no index
  is out of range: \<open>GetAll\<close> returns a snapshot and the next \<open>Append\<close> returns a
  well-formed buffer, neither panics.
\<close>

theorem appends_preserve_wellformed:
  "0 < cap \<Longrightarrow>
   \<exists>rb. fresh_appends cap vs = Inr rb \<and> wellformed rb \<and> capacity rb = cap \<and>
     (\<exists>ys. GetAll rb = Inr ys) \<and>
     (\<forall>v. \<exists>rb'. Append rb v = Inr rb' \<and> wellformed rb')"
  using fresh_appends_logical [of cap vs] GetAll_logical Append_logical
  by (metis (no_types, lifting))

theorem appends_preserve_wellformed_witness:
  "(0::int) < 2 \<and>
   (\<exists>rb. fresh_appends 2 [7, 8, 9] = Inr rb \<and> wellformed rb \<and> capacity rb = 2 \<and>
     (\<exists>ys. GetAll rb = Inr ys) \<and>
     (\<forall>v. \<exists>rb'. Append rb v = Inr rb' \<and> wellformed rb'))"
  using appends_preserve_wellformed [of 2 "[7, 8, 9]"] by simp

section \<open>The tracker: clock arithmetic, the counting loop, sessions of input events\<close>

lemma sdiv_nonneg: "0 \<le> a \<Longrightarrow> 0 < b \<Longrightarrow> a sdiv b = a div (b::int)"
  by (simp add: signed_divide_int_eq_divide_int sgn_if)

lemma minuteAgo_millis:
  "60000000000 \<le> now \<Longrightarrow> unix_millis (now - 60000000000) = unix_millis now - 60000"
proof -
  assume a: "60000000000 \<le> now"
  have "(now - 60000 * 1000000) div 1000000 = now div 1000000 - 60000"
    using div_mult_self1 [of "1000000::int" now "- 60000"] by simp
  with a show ?thesis
    by (simp add: unix_millis_def sdiv_nonneg)
qed

lemma Minutes_exact: "Minutes d = of_int d / 60000000000"
proof -
  have "of_int d = (of_int (d sdiv 60000000000 * 60000000000 + d smod 60000000000) :: rat)"
    by (simp only: sdiv_mult_smod_eq)
  then show ?thesis
    by (simp add: Minutes_def field_simps)
qed


text \<open>
  The backward scan of \<open>calculateCurrentAPM\<close> on a non-decreasing snapshot: from index
  \<open>i\<close> down, it counts the entries not older than the cutoff among the first \<open>i + 1\<close>.
\<close>

lemma count_loop_sorted:
  "sorted ts \<Longrightarrow> - 1 \<le> i \<Longrightarrow> i < int (length ts) \<Longrightarrow>
   count_loop ts m i c = Inr (c + int (length (filter (\<lambda>t. m \<le> t) (take (nat (i + 1)) ts))))"
proof (induction ts m i c rule: count_loop.induct)
  case (1 acts minuteAgo i count)
  show ?case
  proof (cases "0 \<le> i")
    case False
    with "1.prems" have "i = - 1" by simp
    then show ?thesis by (subst count_loop.simps) simp
  next
    case True
    define t where "t = acts ! nat i"
    have get: "slice_get acts i = Inr t"
      using True "1.prems" by (simp add: slice_get_def t_def)
    have tk: "take (nat (i + 1)) acts = take (nat i) acts @ [t]"
      using True "1.prems" by (simp add: nat_add_distrib take_Suc_conv_app_nth t_def)
    show ?thesis
    proof (cases "t < minuteAgo")
      case old: True
      have "\<forall>x \<in> set (take (nat (i + 1)) acts). x \<le> t"
      proof
        fix x assume "x \<in> set (take (nat (i + 1)) acts)"
        then obtain k where k: "k < nat (i + 1)" "x = acts ! k"
          using "1.prems" True by (auto simp add: in_set_conv_nth)
        then have "k \<le> nat i" using True by simp
        with "1.prems" True k show "x \<le> t"
          by (simp add: t_def sorted_nth_mono)
      qed
      with old have "filter (\<lambda>t. minuteAgo \<le> t) (take (nat (i + 1)) acts) = []"
        by (auto simp add: filter_empty_conv)
      then show ?thesis
        using True get old by (subst count_loop.simps) simp
    next
      case recent: False
      have "count_loop acts minuteAgo i count = count_loop acts minuteAgo (i - 1) (count + 1)"
        using True get recent by (subst count_loop.simps) simp
      also have "\<dots> = Inr (count + 1 +
          int (length (filter (\<lambda>t. minuteAgo \<le> t) (take (nat (i - 1 + 1)) acts))))"
        using "1.IH" [OF True get recent] "1.prems" True by simp
      finally show ?thesis
        using recent tk by simp
    qed
  qed
qed

lemma count_loop_ge: "count_loop acts m i c = Inr r \<Longrightarrow> c \<le> r"
proof (induction acts m i c arbitrary: r rule: count_loop.induct)
  case (1 acts minuteAgo i count)
  show ?case
  proof (cases "0 \<le> i")
    case False
    with "1.prems" show ?thesis
      by (subst (asm) count_loop.simps) simp
  next
    case True
    show ?thesis
    proof (cases "slice_get acts i")
      case (Inl e)
      with True "1.prems" show ?thesis
        by (subst (asm) count_loop.simps) simp
    next
      case (Inr t)
      show ?thesis
      proof (cases "t < minuteAgo")
        case old: True
        with True Inr "1.prems" show ?thesis
          by (subst (asm) count_loop.simps) simp
      next
        case recent: False
        with True Inr "1.prems"
        have "count_loop acts minuteAgo (i - 1) (count + 1) = Inr r"
          by (subst (asm) count_loop.simps) simp
        from "1.IH" [OF True Inr recent this] show ?thesis by simp
      qed
    qed
  qed
qed


text \<open>A session of input events only is a sequence of appends to the tracker's buffer.\<close>

lemma run_actions:
  "run a (map Action nows) =
     (case appends (actions a) (map unix_millis nows) of
        Inl e \<Rightarrow> Inl e
      | Inr rb \<Rightarrow> Inr (a\<lparr>actions := rb\<rparr>, []))"
  by (induction nows arbitrary: a) (auto simp add: onAction_def split: sum.splits)

lemma session_actions:
  "session start (map Action nows) =
     (case fresh_appends 3600 (map unix_millis nows) of
        Inl e \<Rightarrow> Inl e
      | Inr rb \<Rightarrow> Inr (\<lparr>actions = rb, startTime = start, peakAPM = 0, running = True\<rparr>, []))"
  by (simp add: session_def NewAPMTracker_def fresh_appends_def run_actions split: sum.splits)

lemma session_actions_snapshot:
  "\<exists>a. session start (map Action nows) = Inr (a, []) \<and> wellformed (actions a) \<and>
     startTime a = start \<and> peakAPM a = 0 \<and> running a \<and>
     GetAll (actions a) = Inr (drop (length nows - 3600) (map unix_millis nows))"
proof -
  from fresh_appends_logical [of 3600 "map unix_millis nows"] obtain rb where
    "fresh_appends 3600 (map unix_millis nows) = Inr rb" "wellformed rb"
    "logical rb = drop (length nows - 3600) (map unix_millis nows)"
    by auto
  then show ?thesis
    by (simp add: session_actions GetAll_logical)
qed

text \<open>The defining equations, for evaluating the model on concrete sessions.\<close>

lemmas run_time_defs = make_slice_def slice_get_def slice_set_def slice_incr_def go_rem_def
  unix_millis_def Minutes_def float64_div_def signed_divide_int_def signed_modulo_int_def

lemmas buffer_defs = NewRingBuffer_def Append_def GetAll_def GetAll_loop.simps

lemmas tracker_defs = session_def NewAPMTracker_def onAction_def onClosing_def
  calculateCurrentAPM_def count_loop.simps calculateAverageAPM_def updateGraph_def
  updateGUI_def Let_def

text \<open>
  Every step of a session leaves in \<open>peakAPM\<close> the maximum of its old value and the
  current rate the step computed, if it computed one; current rates are never negative.
\<close>

lemma calculateCurrentAPM_nonneg: "calculateCurrentAPM a now = Inr r \<Longrightarrow> 0 \<le> r"
  by (auto simp add: calculateCurrentAPM_def Let_def split: sum.splits dest: count_loop_ge)

lemma updateGUI_peak:
  assumes "updateGUI a now1 now2 now3 = Inr (a', out)"
  shows "peakAPM a' = Max (set (peakAPM a # observed out))" and "\<forall>x \<in> set (observed out). 0 \<le> x"
  using assms
  by (auto simp add: updateGUI_def Let_def max_def split: if_splits sum.splits
      dest: calculateCurrentAPM_nonneg)

lemma step_peak:
  assumes "step a e = Inr (a', out)"
  shows "peakAPM a' = Max (set (peakAPM a # observed out))" and "\<forall>x \<in> set (observed out). 0 \<le> x"
  using assms updateGUI_peak [of a _ _ _ a' out]
  by (cases e; auto simp add: onAction_def onClosing_def split: sum.splits)+

lemma run_peak:
  "run a evs = Inr (a', obs) \<Longrightarrow>
   peakAPM a' = Max (set (peakAPM a # obs)) \<and> (\<forall>x \<in> set obs. 0 \<le> x)"
proof (induction evs arbitrary: a obs)
  case Nil
  then show ?case by simp
next
  case (Cons e evs)
  from Cons.prems obtain a1 out obs1 where
    s: "step a e = Inr (a1, out)" and r: "run a1 evs = Inr (a', obs1)"
    and o: "obs = observed out @ obs1"
    by (auto split: sum.splits prod.splits)
  from step_peak [OF s] have p1: "peakAPM a1 = Max (set (peakAPM a # observed out))"
    and n1: "\<forall>x \<in> set (observed out). 0 \<le> x"
    by simp_all
  from Cons.IH [OF r] have p2: "peakAPM a' = Max (set (peakAPM a1 # obs1))"
    and n2: "\<forall>x \<in> set obs1. 0 \<le> x"
    by simp_all
  have "Max (set (peakAPM a # observed out @ obs1))
      = Max (set (Max (set (peakAPM a # observed out)) # obs1))"
  proof (cases "obs1 = []")
    case True
    then show ?thesis by simp
  next
    case False
    have "set (peakAPM a # observed out @ obs1) = set (peakAPM a # observed out) \<union> set obs1"
      by auto
    then have "Max (set (peakAPM a # observed out @ obs1))
        = max (Max (set (peakAPM a # observed out))) (Max (set obs1))"
      using False by (simp only: Max_Un [of "set (peakAPM a # observed out)" "set obs1"]
          List.finite_set set_empty list.distinct simp_thms)
    also have "\<dots> = Max (set (Max (set (peakAPM a # observed out)) # obs1))"
      using False by simp
    finally show ?thesis .
  qed
  with p1 p2 n1 n2 o show ?case by auto
qed

section \<open>Claims about the tracker\<close>

text \<open>
  C3. For a tracker whose snapshot \<open>ts\<close> is non-decreasing and a clock reading \<open>now\<close> not
  before any recorded timestamp, \<open>calculateCurrentAPM\<close> returns the number of entries
  \<open>t\<close> with \<open>now - 60000 \<le> t \<le> now\<close> in milliseconds, the lower boundary included. The
  reading is at least one minute after the epoch, so that the cutoff the code computes,
  the millisecond of \<open>now\<close> less one minute, is the millisecond of \<open>now\<close> less 60000. The
  witness is the scenario: events at 0, 1000, ..., 59000 ms, then the current rate at
  60000 ms is 60.
\<close>

theorem calculateCurrentAPM_window:
  assumes "GetAll (actions a) = Inr ts" and "sorted ts"
    and "\<forall>t \<in> set ts. t \<le> unix_millis now" and "60000000000 \<le> now"
  shows "calculateCurrentAPM a now =
    Inr (int (length (filter (\<lambda>t. unix_millis now - 60000 \<le> t \<and> t \<le> unix_millis now) ts)))"
proof -
  have "filter (\<lambda>t. unix_millis now - 60000 \<le> t \<and> t \<le> unix_millis now) ts
      = filter (\<lambda>t. unix_millis now - 60000 \<le> t) ts"
    using assms(3) by (auto intro: filter_cong)
  moreover have "count_loop ts (unix_millis now - 60000) (int (length ts) - 1) 0
      = Inr (0 + int (length (filter (\<lambda>t. unix_millis now - 60000 \<le> t)
                 (take (nat (int (length ts) - 1 + 1)) ts))))"
    using assms(2) by (intro count_loop_sorted) simp_all
  ultimately show ?thesis
    using assms(1,4) by (simp add: calculateCurrentAPM_def minuteAgo_millis)
qed

theorem calculateCurrentAPM_window_witness:
  "\<exists>a. session 0 (map (\<lambda>i. Action (i * 1000000000)) [0..59]) = Inr (a, []) \<and>
     GetAll (actions a) = Inr (map (\<lambda>i. i * 1000) [0..59]) \<and>
     sorted (map (\<lambda>i. i * 1000) [0..59]) \<and>
     (\<forall>t \<in> set (map (\<lambda>i. i * 1000) [0..59]). t \<le> unix_millis 60000000000) \<and>
     (60000000000 :: int) \<le> 60000000000 \<and>
     calculateCurrentAPM a 60000000000 = Inr 60"
proof -
  define ts :: "int list" where "ts = map (\<lambda>i. i * 1000) [0..59]"
  have "unix_millis (i * 1000000000) = i * 1000" if "0 \<le> i" for i
  proof -
    have "i * 1000000000 = (i * 1000) * 1000000" by simp
    with that show ?thesis
      by (simp only: unix_millis_def sdiv_nonneg)
  qed
  then have ms: "map unix_millis (map (\<lambda>i. i * 1000000000) [0..59]) = ts"
    by (simp add: ts_def)
  from session_actions_snapshot [of 0 "map (\<lambda>i. i * 1000000000) [0..59]"] obtain a where
    s0: "session 0 (map Action (map (\<lambda>i. i * 1000000000) [0..59])) = Inr (a, [])"
    and g0: "GetAll (actions a) = Inr (drop (length (map (\<lambda>i. i * 1000000000) [0..59 :: int]) - 3600)
          (map unix_millis (map (\<lambda>i. i * 1000000000) [0..59])))"
    by blast
  from s0 have s: "session 0 (map (\<lambda>i. Action (i * 1000000000)) [0..59]) = Inr (a, [])"
    by (simp add: comp_def)
  from g0 [unfolded ms] have g: "GetAll (actions a) = Inr ts"
    by simp
  have now_ms: "unix_millis 60000000000 = 60000"
    by (simp add: unix_millis_def)
  have srt: "sorted ts"
    unfolding ts_def sorted_map by (rule sorted_wrt_mono_rel [OF _ sorted_upto]) simp
  have le: "\<forall>t \<in> set ts. t \<le> unix_millis 60000000000"
    by (auto simp add: ts_def now_ms)
  have now: "(60000000000 :: int) \<le> 60000000000" by simp
  have "filter (\<lambda>t. unix_millis 60000000000 - 60000 \<le> t \<and> t \<le> unix_millis 60000000000) ts = ts"
    by (rule filter_True) (auto simp add: ts_def now_ms)
  moreover have "length ts = 60"
    by (simp add: ts_def)
  ultimately have "calculateCurrentAPM a 60000000000 = Inr 60"
    using calculateCurrentAPM_window [OF g srt le now] by simp
  with s g srt le show ?thesis
    unfolding ts_def by blast
qed

text \<open>
  C1 as stated fails: \<open>calculateAverageAPM\<close> divides by the elapsed minutes without a
  guard. On a fresh tracker read at its start time the result is NaN; after one event it
  is \<open>+Inf\<close> at elapsed time zero and 120 after half a second, not 0.
\<close>

theorem calculateAverageAPM_counterexample:
  "NewAPMTracker 0 =
     Inr \<lparr>actions = \<lparr>data = replicate 3600 0, size_rb = 0, capacity = 3600, head = 0\<rparr>,
          startTime = 0, peakAPM = 0, running = True\<rparr> \<and>
   calculateAverageAPM
     \<lparr>actions = \<lparr>data = replicate 3600 0, size_rb = 0, capacity = 3600, head = 0\<rparr>,
      startTime = 0, peakAPM = 0, running = True\<rparr> 0 = Inr NaN \<and>
   onAction
     \<lparr>actions = \<lparr>data = replicate 3600 0, size_rb = 0, capacity = 3600, head = 0\<rparr>,
      startTime = 0, peakAPM = 0, running = True\<rparr> 0 =
     Inr \<lparr>actions = \<lparr>data = (replicate 3600 0)[0 := 0], size_rb = 1, capacity = 3600, head = 0\<rparr>,
          startTime = 0, peakAPM = 0, running = True\<rparr> \<and>
   calculateAverageAPM
     \<lparr>actions = \<lparr>data = (replicate 3600 0)[0 := 0], size_rb = 1, capacity = 3600, head = 0\<rparr>,
      startTime = 0, peakAPM = 0, running = True\<rparr> 0 = Inr PosInf \<and>
   calculateAverageAPM
     \<lparr>actions = \<lparr>data = (replicate 3600 0)[0 := 0], size_rb = 1, capacity = 3600, head = 0\<rparr>,
      startTime = 0, peakAPM = 0, running = True\<rparr> 500000000 = Inr (Finite 120)"
  by (simp add: run_time_defs buffer_defs tracker_defs)

text \<open>
  C1, amended. \<open>calculateAverageAPM\<close> has no threshold and no sentinel: at elapsed time
  zero it returns NaN when the snapshot is empty and \<open>+Inf\<close> otherwise, and at any other
  elapsed time the number of snapshot entries divided by the elapsed minutes (here as the
  exact quotient), which is 0 only for an empty snapshot. With 10 entries and 2 minutes
  elapsed it returns 5.
\<close>

theorem calculateAverageAPM_unguarded:
  assumes "GetAll (actions a) = Inr ts"
  shows "calculateAverageAPM a now =
      Inr (if now = startTime a then (if ts = [] then NaN else PosInf)
           else Finite (of_nat (length ts) / (of_int (now - startTime a) / 60000000000))) \<and>
    (length ts = 10 \<and> now - startTime a = 120000000000 \<longrightarrow>
       calculateAverageAPM a now = Inr (Finite 5))"
  using assms by (auto simp add: calculateAverageAPM_def Minutes_exact float64_div_def)

theorem calculateAverageAPM_unguarded_witness:
  "\<exists>a. session 0 (map Action [0, 1000000000, 2000000000, 3000000000, 4000000000, 5000000000,
            6000000000, 7000000000, 8000000000, 9000000000]) = Inr (a, []) \<and>
     GetAll (actions a) = Inr [0, 1000, 2000, 3000, 4000, 5000, 6000, 7000, 8000, 9000] \<and>
     calculateAverageAPM a 120000000000 = Inr (Finite 5)"
proof -
  from session_actions_snapshot [of 0 "[0, 1000000000, 2000000000, 3000000000, 4000000000,
      5000000000, 6000000000, 7000000000, 8000000000, 9000000000]"]
  obtain a where
    s: "session 0 (map Action [0, 1000000000, 2000000000, 3000000000, 4000000000, 5000000000,
            6000000000, 7000000000, 8000000000, 9000000000]) = Inr (a, [])"
    and st: "startTime a = 0"
    and g: "GetAll (actions a) = Inr [0, 1000, 2000, 3000, 4000, 5000, 6000, 7000, 8000, 9000]"
    by (auto simp add: unix_millis_def)
  from calculateAverageAPM_unguarded [OF g, of 120000000000] st
  have "calculateAverageAPM a 120000000000 = Inr (Finite 5)"
    by simp
  with s g show ?thesis by blast
qed

text \<open>
  C2 fails on the code by an off-by-one: \<open>updateGraph\<close> admits an entry when
  \<open>now - t \<le> 60000\<close>, so an entry exactly 60000 ms old is given the bucket index 60, and
  the write to the 60 buckets panics. One event at 0 ms, then a refresh at 60000 ms:
\<close>

theorem updateGraph_boundary_panic:
  "session 0 [Action 0, Refresh 60000000000 60000000000 60000000000]
     = Inl (IndexOutOfRange 60 60)"
  by (simp add: run_time_defs buffer_defs tracker_defs)

text \<open>
  C7. In every session that reaches its end, \<open>peakAPM\<close> is the maximum of the current
  rates the refreshes computed, and 0 when none was computed; and whatever happens next,
  \<open>peakAPM\<close> does not decrease.
\<close>

theorem peak_is_max_observed:
  assumes "session start evs = Inr (a, obs)"
  shows "peakAPM a = (if obs = [] then 0 else Max (set obs)) \<and>
    (\<forall>evs' a' obs'. run a evs' = Inr (a', obs') \<longrightarrow> peakAPM a \<le> peakAPM a')"
proof -
  from assms obtain a0 where n: "NewAPMTracker start = Inr a0" and r: "run a0 evs = Inr (a, obs)"
    by (auto simp add: session_def split: sum.splits)
  from n have "peakAPM a0 = 0"
    by (auto simp add: NewAPMTracker_def split: sum.splits)
  with run_peak [OF r] have p: "peakAPM a = Max (set (0 # obs))" and nn: "\<forall>x \<in> set obs. 0 \<le> x"
    by simp_all
  have "Max (set (0 # obs)) = Max (set obs)" if "obs \<noteq> []"
  proof -
    from that obtain x where "x \<in> set obs" by (cases obs) auto
    with nn have "0 \<le> Max (set obs)"
      by (meson List.finite_set Max_ge order_trans)
    with that show ?thesis by (simp add: max_def)
  qed
  with p have first: "peakAPM a = (if obs = [] then 0 else Max (set obs))"
    by simp
  have "peakAPM a \<le> peakAPM a'" if "run a evs' = Inr (a', obs')" for evs' a' obs'
    using run_peak [OF that] by simp
  with first show ?thesis by blast
qed

theorem peak_is_max_observed_witness:
  "session 0 [Refresh 1 1 1, Action 1000000, Refresh 2000000 2000000 2000000] =
     Inr (\<lparr>actions = \<lparr>data = (replicate 3600 0)[0 := 1], size_rb = 1, capacity = 3600, head = 0\<rparr>,
           startTime = 0, peakAPM = 1, running = True\<rparr>, [0, 1]) \<and>
   peakAPM \<lparr>actions = \<lparr>data = (replicate 3600 0)[0 := 1], size_rb = 1, capacity = 3600, head = 0\<rparr>,
           startTime = 0, peakAPM = 1, running = True\<rparr> = Max (set [0, 1])"
proof -
  have s: "session 0 [Refresh 1 1 1, Action 1000000, Refresh 2000000 2000000 2000000] =
     Inr (\<lparr>actions = \<lparr>data = (replicate 3600 0)[0 := 1], size_rb = 1, capacity = 3600, head = 0\<rparr>,
           startTime = 0, peakAPM = 1, running = True\<rparr>, [0, 1])"
    by (simp add: run_time_defs buffer_defs tracker_defs)
  from peak_is_max_observed [OF s] s show ?thesis
    by simp
qed

text \<open>
  C8 as stated fails: \<open>onAction\<close> does not read \<open>running\<close>. On a fresh tracker that has
  been closed it appends the timestamp: the size goes from 0 to 1 and the snapshot from
  empty to \<open>[5]\<close>.
\<close>

theorem onAction_after_onClosing_counterexample:
  "NewAPMTracker 0 =
     Inr \<lparr>actions = \<lparr>data = replicate 3600 0, size_rb = 0, capacity = 3600, head = 0\<rparr>,
          startTime = 0, peakAPM = 0, running = True\<rparr> \<and>
   onAction
     (onClosing \<lparr>actions = \<lparr>data = replicate 3600 0, size_rb = 0, capacity = 3600, head = 0\<rparr>,
                 startTime = 0, peakAPM = 0, running = True\<rparr>) 5000000 =
     Inr \<lparr>actions = \<lparr>data = (replicate 3600 0)[0 := 5], size_rb = 1, capacity = 3600, head = 0\<rparr>,
          startTime = 0, peakAPM = 0, running = False\<rparr> \<and>
   GetAll \<lparr>data = replicate 3600 0, size_rb = 0, capacity = 3600, head = 0\<rparr> = Inr [] \<and>
   GetAll \<lparr>data = (replicate 3600 0)[0 := 5], size_rb = 1, capacity = 3600, head = 0\<rparr> = Inr [5]"
  by (simp add: run_time_defs buffer_defs tracker_defs)

text \<open>
  C8, amended. After \<open>onClosing\<close>, \<open>onAction\<close> does what it does on the open tracker: on a
  well-formed buffer it appends the timestamp, which is then the newest entry of the
  snapshot. What the cleared flag turns into a no-op is the refresh, \<open>updateGUI\<close>, which
  returns the tracker unchanged and displays nothing. The three computations do not read
  the flag and give the same results as before.
\<close>

theorem onAction_after_onClosing:
  "onAction (onClosing a) now = map_sum id onClosing (onAction a now) \<and>
   updateGUI (onClosing a) now1 now2 now3 = Inr (onClosing a, None) \<and>
   calculateCurrentAPM (onClosing a) now = calculateCurrentAPM a now \<and>
   calculateAverageAPM (onClosing a) now = calculateAverageAPM a now \<and>
   updateGraph (onClosing a) now = updateGraph a now \<and>
   (wellformed (actions a) \<longrightarrow>
      (\<exists>a' ts. onAction (onClosing a) now = Inr a' \<and> \<not> running a' \<and>
         GetAll (actions a') = Inr ts \<and> ts \<noteq> [] \<and> last ts = unix_millis now))"
proof -
  have "\<exists>a' ts. onAction (onClosing a) now = Inr a' \<and> \<not> running a' \<and>
         GetAll (actions a') = Inr ts \<and> ts \<noteq> [] \<and> last ts = unix_millis now"
    if w: "wellformed (actions a)"
  proof -
    from Append_logical [OF w, of "unix_millis now"] obtain rb where
      a: "Append (actions a) (unix_millis now) = Inr rb" and w': "wellformed rb"
      and l: "logical rb = drop (Suc (length (logical (actions a))) - nat (capacity (actions a)))
                (logical (actions a) @ [unix_millis now])"
      by blast
    have "0 < nat (capacity (actions a))"
      using w by (simp add: wellformed_def)
    then have "Suc (length (logical (actions a))) - nat (capacity (actions a))
        \<le> length (logical (actions a))"
      by simp
    then obtain k where k: "k \<le> length (logical (actions a))"
      and l': "logical rb = drop k (logical (actions a)) @ [unix_millis now]"
      using l by auto
    from a w' l' show ?thesis
      by (simp add: onAction_def onClosing_def GetAll_logical)
  qed
  then show ?thesis
    by (auto simp add: onAction_def onClosing_def updateGUI_def calculateCurrentAPM_def
        calculateAverageAPM_def updateGraph_def split: sum.splits)
qed

theorem onAction_after_onClosing_witness:
  "wellformed (actions \<lparr>actions = \<lparr>data = replicate 3600 0, size_rb = 0, capacity = 3600, head = 0\<rparr>,
                 startTime = 0, peakAPM = 0, running = True\<rparr>) \<and>
   (\<exists>a' ts. onAction
       (onClosing \<lparr>actions = \<lparr>data = replicate 3600 0, size_rb = 0, capacity = 3600, head = 0\<rparr>,
                 startTime = 0, peakAPM = 0, running = True\<rparr>) 5000000 = Inr a' \<and> \<not> running a' \<and>
         GetAll (actions a') = Inr ts \<and> ts \<noteq> [] \<and> last ts = unix_millis 5000000)"
proof -
  have w: "wellformed (actions \<lparr>actions = \<lparr>data = replicate 3600 0, size_rb = 0, capacity = 3600, head = 0\<rparr>,
                 startTime = 0, peakAPM = 0, running = True\<rparr>)"
    by (simp add: wellformed_def)
  from onAction_after_onClosing [of "\<lparr>actions = \<lparr>data = replicate 3600 0, size_rb = 0, capacity = 3600, head = 0\<rparr>,
                 startTime = 0, peakAPM = 0, running = True\<rparr>" 5000000] w
  show ?thesis by blast
qed

end
